theory Spec2Isabelle
  imports Main "HOL-Library.Multiset"
begin

section \<open>Barrier.js: a counting barrier for callback-driven code\<close>

text \<open>
  The embedding follows \<^verbatim>\<open>src/barrier.js\<close>. A barrier object has two fields,
  \<^verbatim>\<open>value\<close> (the counter) and \<^verbatim>\<open>waiting\<close> (an array of \<^verbatim>\<open>{args, callback}\<close> objects).

  Modelling decisions:
  \<^item> Counters and numeric arguments are integers (\<^typ>\<open>int\<close>): the claims are about
    integer arguments. JavaScript numbers are doubles, so the result of every addition
    and subtraction of the source is rounded to the nearest double (\<open>js_round\<close> below):
    up to \<open>2^53\<close> every integer is a double and nothing is rounded, beyond it the
    counter moves in steps of 2, 4, ... Sums that leave the finite doubles (\<open>2^1024\<close>
    and beyond, where JavaScript has \<^verbatim>\<open>Infinity\<close>) are outside the model.
  \<^item> An optional argument is an \<^typ>\<open>int option\<close>: \<open>None\<close> is a call with no argument
    (\<^verbatim>\<open>arguments.length === 0\<close>, or \<^verbatim>\<open>n\<close> undefined in the constructor).
  \<^item> A callback is a function value with an identity (a number naming it) and a body.
    The body is a finite sequence of calls on the same barrier: \<^verbatim>\<open>aquire\<close>,
    \<^verbatim>\<open>release\<close> and \<^verbatim>\<open>wait\<close> (whose callback has a body of its own). A body does not
    look at its arguments or at the state, and a function cannot hand itself to
    \<^verbatim>\<open>wait\<close>; so every program of the model comes to an end, which the termination
    proof of \<open>run\<close> below establishes. Every invocation of a callback is appended to a
    log, so that the order and the number of invocations can be observed.
  \<^item> A \<^verbatim>\<open>throw\<close> is a result \<open>Thrown e w\<close> carrying the error and the state at the moment
    of the throw: nothing in the source catches an exception, so it unwinds every
    active call.
  \<^item> The \<^verbatim>\<open>Function.prototype.bind\<close> snippet at the top of the file installs a library
    function and does not touch a barrier; it is not modelled.
\<close>

subsection \<open>Data\<close>

datatype jsval = Num int | Str string

datatype call = Aquire "int option" | Release "int option" | Wait fn "jsval list"
  and fn = Fn nat "call list"

fun fn_name :: "fn \<Rightarrow> nat" where
  "fn_name (Fn i body) = i"

fun fn_body :: "fn \<Rightarrow> call list" where
  "fn_body (Fn i body) = body"

text \<open>The two exceptions of the source: \<^verbatim>\<open>new RangeError(msg)\<close> and \<^verbatim>\<open>new Error(msg)\<close>.\<close>

datatype error = RangeError string | Error string

text \<open>An entry of \<^verbatim>\<open>this.waiting\<close>: the object \<^verbatim>\<open>{args: args, callback: fn}\<close>.\<close>

record waiter =
  args :: "jsval list"
  callback :: fn

text \<open>The object itself. The field \<^verbatim>\<open>value\<close> is named \<open>value_b\<close>.\<close>

record barrier =
  value_b :: int
  waiting :: "waiter list"

text \<open>The barrier together with the log of callback invocations (name and arguments).\<close>

record world = barrier +
  invoked :: "(nat \<times> jsval list) list"

datatype outcome = Returned world | Thrown error world

subsection \<open>The constructor and the methods without callbacks\<close>

text \<open>
  \<^verbatim>\<open>if (n < 0) throw new RangeError("Invalid Argument"); this.value = n || 0; this.waiting = [];\<close>
  With \<^verbatim>\<open>n\<close> undefined the comparison is false and \<^verbatim>\<open>n || 0\<close> is \<open>0\<close>; with \<^verbatim>\<open>n\<close> a
  number, \<^verbatim>\<open>n || 0\<close> is \<open>n\<close> unless \<open>n\<close> is \<open>0\<close> (falsy), where it is \<open>0\<close>. The four
  \<^verbatim>\<open>bind\<close> calls discard their results and have no effect.
\<close>

definition Barrier :: "int option \<Rightarrow> error + barrier" where
  "Barrier n =
     (case n of
        None \<Rightarrow> Inr \<lparr>value_b = 0, waiting = []\<rparr>
      | Some k \<Rightarrow>
          if k < 0 then Inl (RangeError ''Invalid Argument'')
          else Inr \<lparr>value_b = (if k \<noteq> 0 then k else 0), waiting = []\<rparr>)"

text \<open>\<^verbatim>\<open>return this.value > 0;\<close>\<close>

definition isSet :: "'a barrier_scheme \<Rightarrow> bool" where
  "isSet b = (value_b b > 0)"

text \<open>
  Arithmetic on doubles, for integer operands: the exact result, rounded to the nearest
  integer that a double can hold (53 significant bits), a tie going to the one whose
  53-bit significand is even. \<open>bit_length n\<close> is the number of binary digits of \<open>n\<close>;
  for a number of more than 53 digits the doubles around it are the multiples of
  \<open>ulp = 2 ^ (bit_length n - 53)\<close>.
\<close>

fun bit_length :: "nat \<Rightarrow> nat" where
  "bit_length n = (if n = 0 then 0 else Suc (bit_length (n div 2)))"

declare bit_length.simps [simp del]

definition js_round :: "int \<Rightarrow> int" where
  "js_round x =
     (if \<bar>x\<bar> \<le> 2 ^ 53 then x
      else (let ulp = 2 ^ (bit_length (nat \<bar>x\<bar>) - 53);
                q = \<bar>x\<bar> div ulp;
                r = \<bar>x\<bar> mod ulp;
                m = (if 2 * r < ulp \<or> (2 * r = ulp \<and> even q) then q else q + 1)
            in sgn x * (m * ulp)))"

text \<open>
  \<^verbatim>\<open>aquire\<close>: with no argument \<^verbatim>\<open>this.value++\<close>; with \<^verbatim>\<open>n >= 0\<close>, \<^verbatim>\<open>this.value += n\<close>;
  otherwise it throws. It returns \<^verbatim>\<open>this.value\<close>. The result is the returned number
  and the new state, or the error and the state at the throw.
\<close>

definition aquire :: "'a barrier_scheme \<Rightarrow> int option \<Rightarrow> error \<times> 'a barrier_scheme + int \<times> 'a barrier_scheme" where
  "aquire b n =
     (case n of
        None \<Rightarrow> (let b' = b\<lparr>value_b := js_round (value_b b + 1)\<rparr> in Inr (value_b b', b'))
      | Some k \<Rightarrow>
          if k \<ge> 0 then (let b' = b\<lparr>value_b := js_round (value_b b + k)\<rparr> in Inr (value_b b', b'))
          else Inl (RangeError ''Invalid Argument'', b))"

text \<open>
  The first half of \<^verbatim>\<open>release\<close> (up to the drain loop). The test of the second branch
  is written \<^verbatim>\<open>this.value >= n > 0\<close> in the source, which JavaScript reads as
  \<^verbatim>\<open>(this.value >= n) > 0\<close>: the comparison yields a boolean, and the boolean is
  converted to the number \<open>1\<close> or \<open>0\<close> before it is compared with \<open>0\<close>.
\<close>

definition js_number_of_bool :: "bool \<Rightarrow> int" where
  "js_number_of_bool p = (if p then 1 else 0)"

definition release_count :: "'a barrier_scheme \<Rightarrow> int option \<Rightarrow> error \<times> 'a barrier_scheme + 'a barrier_scheme" where
  "release_count b n =
     (if \<not> isSet b then Inl (Error ''Barrier not set.'', b)
      else case n of
        None \<Rightarrow> Inr (b\<lparr>value_b := js_round (value_b b - 1)\<rparr>)
      | Some k \<Rightarrow>
          if js_number_of_bool (value_b b \<ge> k) > 0 then Inr (b\<lparr>value_b := js_round (value_b b - k)\<rparr>)
          else Inl (RangeError ''Invalid Argument'', b))"

subsection \<open>Callbacks: the call stack as a list of pending tasks\<close>

text \<open>
  \<^verbatim>\<open>release\<close> and \<^verbatim>\<open>wait\<close> invoke callbacks, and a callback may call back into the
  barrier. The pending work of all active calls is kept as a list of tasks, innermost
  first: \<open>Call c\<close> is a call still to be made by a callback body (or by the program),
  \<open>Drain\<close> is an activation of \<^verbatim>\<open>release\<close> standing at the head of its loop
  \<^verbatim>\<open>while (!this.isSet() && this.waiting.length > 0)\<close>.
\<close>

datatype task = Call call | Drain

text \<open>\<^verbatim>\<open>fn.apply(null, args)\<close>: the invocation is logged and the body becomes pending.\<close>

definition log_invocation :: "fn \<Rightarrow> jsval list \<Rightarrow> world \<Rightarrow> world" where
  "log_invocation f a w = w\<lparr>invoked := invoked w @ [(fn_name f, a)]\<rparr>"

definition body_tasks :: "fn \<Rightarrow> task list" where
  "body_tasks f = map Call (fn_body f)"

text \<open>\<^verbatim>\<open>cb = this.waiting.pop()\<close> takes the last element off the array.\<close>

definition pop_waiting :: "world \<Rightarrow> world" where
  "pop_waiting w = w\<lparr>waiting := butlast (waiting w)\<rparr>"

text \<open>\<^verbatim>\<open>this.waiting.unshift({args: args, callback: fn})\<close> puts the entry at index 0.\<close>

definition unshift_waiting :: "fn \<Rightarrow> jsval list \<Rightarrow> world \<Rightarrow> world" where
  "unshift_waiting f a w = w\<lparr>waiting := \<lparr>args = a, callback = f\<rparr> # waiting w\<rparr>"

text \<open>Termination measure: the calls still pending, in the tasks and in the waiting array.\<close>

fun weight :: "call \<Rightarrow> nat" and weight_fn :: "fn \<Rightarrow> nat" where
  "weight (Aquire n) = 1"
| "weight (Release n) = 2"
| "weight (Wait f a) = Suc (weight_fn f)"
| "weight_fn (Fn i body) = Suc (sum_list (map weight body))"

fun weight_task :: "task \<Rightarrow> nat" where
  "weight_task (Call c) = weight c"
| "weight_task Drain = 1"

definition weight_waiting :: "waiter list \<Rightarrow> nat" where
  "weight_waiting q = sum_list (map (\<lambda>cb. weight_fn (callback cb)) q)"

definition pending :: "task list \<times> world \<Rightarrow> nat" where
  "pending = (\<lambda>(ts, w). sum_list (map weight_task ts) + weight_waiting (waiting w))"

text \<open>
  The machine. \<open>run ts w\<close> executes the pending tasks \<open>ts\<close> from state \<open>w\<close> until none
  is left (every active call has returned) or one throws.
\<close>

function (sequential) run :: "task list \<Rightarrow> world \<Rightarrow> outcome" where
  "run [] w = Returned w"
| "run (Call (Aquire n) # ts) w =
     (case aquire w n of
        Inl (e, w') \<Rightarrow> Thrown e w'
      | Inr (r, w') \<Rightarrow> run ts w')"
| "run (Call (Release n) # ts) w =
     (case release_count w n of
        Inl (e, w') \<Rightarrow> Thrown e w'
      | Inr w' \<Rightarrow> run (Drain # ts) w')"
| "run (Drain # ts) w =
     (if \<not> isSet w \<and> length (waiting w) > 0
      then (let cb = last (waiting w)
            in run (body_tasks (callback cb) @ Drain # ts)
                 (log_invocation (callback cb) (args cb) (pop_waiting w)))
      else run ts w)"
| "run (Call (Wait f a) # ts) w =
     (if isSet w then run ts (unshift_waiting f a w)
      else run (body_tasks f @ ts) (log_invocation f a w))"
  by pat_completeness auto

termination
proof (relation "measure pending")
  have body: "Suc (sum_list (map weight_task (body_tasks f))) = weight_fn f" for f
    by (cases f) (simp add: body_tasks_def comp_def)
  have pop: "weight_waiting (butlast q) + weight_fn (callback (last q)) = weight_waiting q"
    if "q \<noteq> []" for q
    using that by (induction q) (auto simp: weight_waiting_def)
  have aquire_waiting: "waiting w' = waiting w"
    if "aquire w n = Inr (r, w')" for w w' :: world and n r
    using that by (auto simp: aquire_def Let_def split: option.splits if_splits)
  have release_waiting: "waiting w' = waiting w"
    if "release_count w n = Inr w'" for w w' :: world and n
    using that by (auto simp: release_count_def split: option.splits if_splits)
  show "wf (measure pending)" by simp
  show "((ts, w'), Call (Aquire n) # ts, w) \<in> measure pending"
    if "aquire w n = Inr x" and "(r, w') = x" for n ts and w w' :: world and x r
    using that by (auto simp: pending_def dest: aquire_waiting)
  show "((Drain # ts, w'), Call (Release n) # ts, w) \<in> measure pending"
    if "release_count w n = Inr w'" for n ts and w w' :: world
    using that by (auto simp: pending_def dest: release_waiting)
  show "((body_tasks (callback cb) @ Drain # ts,
          log_invocation (callback cb) (args cb) (pop_waiting w)),
         Drain # ts, w) \<in> measure pending"
    if "\<not> isSet w \<and> 0 < length (waiting w)" and "cb = last (waiting w)"
    for ts and w :: world and cb
    using that pop [of "waiting w"] body [of "callback (last (waiting w))"]
    by (auto simp: pending_def log_invocation_def pop_waiting_def)
  show "((ts, w), Drain # ts, w) \<in> measure pending" for ts and w :: world
    by (simp add: pending_def)
  show "((ts, unshift_waiting f a w), Call (Wait f a) # ts, w) \<in> measure pending"
    for f a ts and w :: world
    by (simp add: pending_def unshift_waiting_def weight_waiting_def)
  show "((body_tasks f @ ts, log_invocation f a w), Call (Wait f a) # ts, w) \<in> measure pending"
    for f a ts and w :: world
    using body [of f] by (simp add: pending_def log_invocation_def)
qed

subsection \<open>The methods that invoke callbacks, and whole programs\<close>

text \<open>
  \<^verbatim>\<open>release(n)\<close> and \<^verbatim>\<open>wait(fn, ...args)\<close> called from outside, on state \<open>w\<close>: the call
  is the only pending task. \<open>drain\<close> is the loop of \<^verbatim>\<open>release\<close> alone, \<open>invoke\<close> is
  \<^verbatim>\<open>fn.apply(null, args)\<close>, and \<open>program\<close> is a sequence of calls made one after the
  other by the code that owns the barrier.
\<close>

definition release :: "world \<Rightarrow> int option \<Rightarrow> outcome" where
  "release w n = run [Call (Release n)] w"

definition wait :: "world \<Rightarrow> fn \<Rightarrow> jsval list \<Rightarrow> outcome" where
  "wait w f a = run [Call (Wait f a)] w"

definition drain :: "world \<Rightarrow> outcome" where
  "drain w = run [Drain] w"

definition invoke :: "fn \<Rightarrow> jsval list \<Rightarrow> world \<Rightarrow> outcome" where
  "invoke f a w = run (body_tasks f) (log_invocation f a w)"

definition program :: "call list \<Rightarrow> world \<Rightarrow> outcome" where
  "program cs w = run (map Call cs) w"

text \<open>The state in which a computation ended, returned or thrown.\<close>

fun state_of :: "outcome \<Rightarrow> world" where
  "state_of (Returned w) = w"
| "state_of (Thrown e w) = w"

text \<open>A barrier just constructed: nothing has been invoked yet.\<close>

definition start :: "barrier \<Rightarrow> world" where
  "start b = \<lparr>value_b = value_b b, waiting = waiting b, invoked = []\<rparr>"

text \<open>Sequencing: the second computation runs only if the first returned.\<close>

definition and_then :: "outcome \<Rightarrow> (world \<Rightarrow> outcome) \<Rightarrow> outcome" where
  "and_then r k = (case r of Returned w \<Rightarrow> k w | Thrown e w \<Rightarrow> Thrown e w)"

text \<open>What the log records of an invoked queue entry: the callback's name and its arguments.\<close>

definition entry :: "waiter \<Rightarrow> nat \<times> jsval list" where
  "entry cb = (fn_name (callback cb), args cb)"

text \<open>The names in the log, as a multiset: how often each callback has been invoked.\<close>

definition invocations :: "world \<Rightarrow> nat multiset" where
  "invocations w = mset (map fst (invoked w))"

text \<open>
  The registrations a call can lead to: \<^verbatim>\<open>wait(fn)\<close> hands over \<^verbatim>\<open>fn\<close> once, and the body
  of \<^verbatim>\<open>fn\<close>, if it runs, makes the registrations of its own calls.
\<close>

fun registered :: "call \<Rightarrow> nat multiset" and registered_fn :: "fn \<Rightarrow> nat multiset" where
  "registered (Aquire n) = {#}"
| "registered (Release n) = {#}"
| "registered (Wait f a) = registered_fn f"
| "registered_fn (Fn i body) = add_mset i (sum_list (map registered body))"

fun registered_task :: "task \<Rightarrow> nat multiset" where
  "registered_task (Call c) = registered c"
| "registered_task Drain = {#}"

definition registered_waiting :: "waiter list \<Rightarrow> nat multiset" where
  "registered_waiting q = sum_list (map (\<lambda>cb. registered_fn (callback cb)) q)"

text \<open>A callback that makes no \<^verbatim>\<open>release\<close> call, neither itself nor through what it registers.\<close>

fun release_free :: "call \<Rightarrow> bool" and release_free_fn :: "fn \<Rightarrow> bool" where
  "release_free (Aquire n) = True"
| "release_free (Release n) = False"
| "release_free (Wait f a) = release_free_fn f"
| "release_free_fn (Fn i body) = list_all release_free body"

fun release_free_task :: "task \<Rightarrow> bool" where
  "release_free_task (Call c) = release_free c"
| "release_free_task Drain = False"

text \<open>
  The iterations of one activation of the loop of \<^verbatim>\<open>release\<close>: \<open>drains_to w w'\<close> when
  the loop, standing at its head in state \<open>w\<close>, stands at its head in state \<open>w'\<close> after
  some iterations (none, or more), each of which took the last entry of the array and
  applied it, the callback returning.
\<close>

inductive drains_to :: "world \<Rightarrow> world \<Rightarrow> bool" where
  here: "drains_to w w"
| iteration:
    "\<not> isSet w \<Longrightarrow> length (waiting w) > 0 \<Longrightarrow>
     invoke (callback (last (waiting w))) (args (last (waiting w))) (pop_waiting w) = Returned w1 \<Longrightarrow>
     drains_to w1 w2 \<Longrightarrow> drains_to w w2"

code_pred drains_to .

subsection \<open>The machine agrees with the nested calls of the source\<close>

text \<open>
  Running \<open>ts\<close> followed by \<open>us\<close> is running \<open>ts\<close> to its end and then \<open>us\<close>: the tasks a
  callback leaves pending are finished before its caller goes on, and a throw skips the
  caller's remaining tasks.
\<close>

lemma run_append: "run (ts @ us) w = and_then (run ts w) (run us)"
proof (induction ts w rule: run.induct)
  case (1 w)
  show ?case by (simp add: and_then_def)
next
  case (2 n ts w)
  then show ?case by (auto simp: and_then_def split: sum.splits prod.splits)
next
  case (3 n ts w)
  then show ?case by (auto simp: and_then_def split: sum.splits prod.splits)
next
  case (4 ts w)
  then show ?case by (auto simp: Let_def)
next
  case (5 f a ts w)
  then show ?case by auto
qed

lemma run_Cons: "run (t # ts) w = and_then (run [t] w) (run ts)"
  using run_append [of "[t]" ts w] by simp

lemma drain_eq: "drain = run [Drain]"
  by (rule ext) (simp add: drain_def)

text \<open>
  With it, the definitions above satisfy the equations one reads off the source:
  \<^verbatim>\<open>release\<close> is its check and decrement followed by the loop; the loop pops a
  continuation, applies it, and tests its condition again; \<^verbatim>\<open>wait\<close> enqueues or
  applies.
\<close>

lemma release_unfold:
  "release w n =
     (case release_count w n of Inl (e, w') \<Rightarrow> Thrown e w' | Inr w' \<Rightarrow> drain w')"
  by (simp add: release_def drain_def split: sum.splits prod.splits)

lemma drain_unfold:
  "drain w =
     (if \<not> isSet w \<and> length (waiting w) > 0
      then (let cb = last (waiting w)
            in and_then (invoke (callback cb) (args cb) (pop_waiting w)) drain)
      else Returned w)"
  using run_append [of "body_tasks (callback (last (waiting w)))" "[Drain]"]
  by (simp add: drain_eq invoke_def Let_def)

lemma wait_unfold:
  "wait w f a = (if isSet w then Returned (unshift_waiting f a w) else invoke f a w)"
  by (simp add: wait_def invoke_def)

lemma invoke_unfold: "invoke f a w = program (fn_body f) (log_invocation f a w)"
  by (simp add: invoke_def program_def body_tasks_def)

lemma program_Nil: "program [] w = Returned w"
  by (simp add: program_def)

lemma program_Cons:
  "program (c # cs) w =
     and_then
       (case c of
          Aquire n \<Rightarrow> (case aquire w n of Inl (e, w') \<Rightarrow> Thrown e w' | Inr (r, w') \<Rightarrow> Returned w')
        | Release n \<Rightarrow> release w n
        | Wait f a \<Rightarrow> wait w f a)
       (program cs)"
proof -
  have "program (c # cs) w = and_then (run [Call c] w) (program cs)"
    using run_Cons [of "Call c" "map Call cs" w]
    by (simp add: program_def [abs_def])
  then show ?thesis
    by (cases c) (simp_all add: release_def wait_def split: sum.splits prod.splits)
qed

subsection \<open>Rounding\<close>

text \<open>Up to \<open>2^53\<close> nothing is rounded, and rounding never changes the sign.\<close>

lemma js_round_small [simp]: "\<bar>x\<bar> \<le> 2 ^ 53 \<Longrightarrow> js_round x = x"
  by (simp add: js_round_def)

lemma js_round_nonneg:
  assumes "0 \<le> x"
  shows "0 \<le> js_round x"
proof -
  have q: "0 \<le> x div 2 ^ k" for k
    using assms by (simp add: pos_imp_zdiv_nonneg_iff)
  show ?thesis
    using assms
    by (auto simp: js_round_def Let_def sgn_if q intro!: mult_nonneg_nonneg add_nonneg_nonneg)
qed

text \<open>Above \<open>2^53\<close> the odd numbers are not doubles: \<open>2^53 + 1\<close> is rounded to \<open>2^53\<close>.\<close>

lemma js_round_first_odd: "js_round 9007199254740993 = 9007199254740992"
  by (simp add: js_round_def bit_length.simps Let_def)

subsection \<open>Auxiliary facts about the machine\<close>

lemma release_count_explicit:
  "isSet w \<Longrightarrow>
   release_count w (Some k) =
     (if k \<le> value_b w then Inr (w\<lparr>value_b := js_round (value_b w - k)\<rparr>)
      else Inl (RangeError ''Invalid Argument'', w))"
  by (simp add: release_count_def js_number_of_bool_def)

lemma release_to_zero:
  "value_b w = c \<Longrightarrow> c > 0 \<Longrightarrow> n = Some c \<or> (n = None \<and> c = 1) \<Longrightarrow>
   release_count w n = Inr (w\<lparr>value_b := 0\<rparr>)"
  by (auto simp: release_count_def isSet_def js_number_of_bool_def)

lemma isSet_unshift: "isSet (unshift_waiting f a w) = isSet w"
  by (simp add: isSet_def unshift_waiting_def)

lemma Barrier_waiting: "Barrier n = Inr b \<Longrightarrow> waiting b = [] \<and> 0 \<le> value_b b"
  by (auto simp: Barrier_def split: option.splits if_splits)

text \<open>While the barrier is set, a run of \<^verbatim>\<open>wait\<close> calls only fills the array, newest first.\<close>

lemma run_waits:
  "isSet w \<Longrightarrow>
   run (map (\<lambda>(f, a). Call (Wait f a)) regs @ ts) w =
   run ts (w\<lparr>waiting := rev (map (\<lambda>(f, a). \<lparr>args = a, callback = f\<rparr>) regs) @ waiting w\<rparr>)"
proof (induction regs arbitrary: w)
  case Nil
  show ?case by simp
next
  case (Cons r regs)
  obtain f a where r: "r = (f, a)" by (cases r)
  have "run (map (\<lambda>(f, a). Call (Wait f a)) (r # regs) @ ts) w =
        run (map (\<lambda>(f, a). Call (Wait f a)) regs @ ts) (unshift_waiting f a w)"
    using Cons.prems by (simp add: r)
  also have "\<dots> = run ts ((unshift_waiting f a w)
      \<lparr>waiting := rev (map (\<lambda>(f, a). \<lparr>args = a, callback = f\<rparr>) regs) @ waiting (unshift_waiting f a w)\<rparr>)"
    using Cons.prems by (intro Cons.IH) (simp add: isSet_unshift)
  finally show ?case by (simp add: r unshift_waiting_def)
qed

text \<open>
  The loop on a clear barrier whose last entries \<open>ps\<close> have callbacks with empty bodies:
  they are taken from the end of the array, one by one, and the loop stands at its head
  again with the rest \<open>q\<close>.
\<close>

lemma drain_passive:
  "\<not> isSet w \<Longrightarrow> waiting w = q @ ps \<Longrightarrow> \<forall>p\<in>set ps. fn_body (callback p) = [] \<Longrightarrow>
   run (Drain # ts) w =
   run (Drain # ts) (w\<lparr>waiting := q, invoked := invoked w @ map entry (rev ps)\<rparr>)"
proof (induction ps arbitrary: w rule: rev_induct)
  case Nil
  then have "w\<lparr>waiting := q, invoked := invoked w @ map entry (rev [])\<rparr> = w" by simp
  then show ?case by (simp only:)
next
  case (snoc p ps)
  let ?w' = "log_invocation (callback p) (args p) (pop_waiting w)"
  have "run (Drain # ts) w = run (Drain # ts) ?w'"
    using snoc.prems by (simp add: body_tasks_def)
  also have "\<dots> = run (Drain # ts) (?w'\<lparr>waiting := q, invoked := invoked ?w' @ map entry (rev ps)\<rparr>)"
    using snoc.prems
    by (intro snoc.IH) (simp_all add: log_invocation_def pop_waiting_def isSet_def butlast_append)
  finally show ?case
    by (simp add: log_invocation_def pop_waiting_def entry_def [abs_def] del: run.simps)
qed

text \<open>The loop stops as soon as a continuation returns with the barrier set.\<close>

lemma drain_halts_when_set:
  assumes "\<not> isSet w" and "waiting w \<noteq> []"
    and "invoke (callback (last (waiting w))) (args (last (waiting w))) (pop_waiting w) = Returned w'"
    and "isSet w'"
  shows "drain w = Returned w'"
proof -
  have "drain w = and_then (Returned w') drain"
    using assms(1-3) by (subst drain_unfold) (simp add: Let_def)
  also have "\<dots> = drain w'"
    by (simp add: and_then_def)
  also have "\<dots> = Returned w'"
    using assms(4) by (subst drain_unfold) simp
  finally show ?thesis .
qed

text \<open>Several iterations of the loop leave the outcome of the loop as it is.\<close>

lemma drains_to_drain: "drains_to w w' \<Longrightarrow> drain w = drain w'"
proof (induction rule: drains_to.induct)
  case (here w)
  show ?case by simp
next
  case (iteration w w1 w2)
  have "drain w = and_then (Returned w1) drain"
    using iteration(1-3) by (subst drain_unfold) (simp add: Let_def)
  also have "\<dots> = drain w1"
    by (simp add: and_then_def)
  finally show ?case using iteration.IH by simp
qed

text \<open>Without a \<^verbatim>\<open>release\<close> nothing is taken off the array: entries are only put in front.\<close>

lemma release_free_body_tasks: "release_free_fn f \<Longrightarrow> list_all release_free_task (body_tasks f)"
  by (cases f) (simp add: body_tasks_def list_all_iff)

lemma run_release_free:
  "list_all release_free_task ts \<Longrightarrow> \<exists>new. waiting (state_of (run ts w)) = new @ waiting w"
proof (induction ts w rule: run.induct)
  case (1 w)
  show ?case by simp
next
  case (2 n ts w)
  then show ?case
    by (auto simp: aquire_def Let_def split: option.splits if_splits)
next
  case (3 n ts w)
  then show ?case by simp
next
  case (4 ts w)
  then show ?case by simp
next
  case (5 f a ts w)
  show ?case
  proof (cases "isSet w")
    case True
    then obtain new where
      "waiting (state_of (run ts (unshift_waiting f a w))) = new @ waiting (unshift_waiting f a w)"
      using "5.IH"(1) "5.prems" by auto
    then have "waiting (state_of (run (Call (Wait f a) # ts) w))
               = (new @ [\<lparr>args = a, callback = f\<rparr>]) @ waiting w"
      using True by (simp add: unshift_waiting_def)
    then show ?thesis by blast
  next
    case False
    have "list_all release_free_task (body_tasks f @ ts)"
      using "5.prems" by (simp add: release_free_body_tasks)
    then obtain new where
      "waiting (state_of (run (body_tasks f @ ts) (log_invocation f a w)))
       = new @ waiting (log_invocation f a w)"
      using "5.IH"(2) False by blast
    then have "waiting (state_of (run (Call (Wait f a) # ts) w)) = new @ waiting w"
      using False by (simp add: log_invocation_def)
    then show ?thesis by blast
  qed
qed

text \<open>The log only grows.\<close>

lemma run_invoked_grows: "\<exists>later. invoked (state_of (run ts w)) = invoked w @ later"
proof (induction ts w rule: run.induct)
  case (1 w)
  show ?case by simp
next
  case (2 n ts w)
  then show ?case
    by (auto simp: aquire_def Let_def split: option.splits if_splits)
next
  case (3 n ts w)
  then show ?case
    by (auto simp: release_count_def split: option.splits if_splits simp del: run.simps(4))
next
  case (4 ts w)
  then show ?case
    by (auto simp: Let_def log_invocation_def pop_waiting_def)
next
  case (5 f a ts w)
  then show ?case
    by (auto simp: log_invocation_def unshift_waiting_def)
qed

text \<open>The counter stays non-negative through every computation, returned or thrown.\<close>

lemma run_value_nonneg: "0 \<le> value_b w \<Longrightarrow> 0 \<le> value_b (state_of (run ts w))"
proof (induction ts w rule: run.induct)
  case (1 w)
  then show ?case by simp
next
  case (2 n ts w)
  show ?case
  proof (cases "aquire w n")
    case (Inl x)
    then show ?thesis
      using "2.prems" by (cases x) (auto simp: aquire_def split: option.splits if_splits)
  next
    case (Inr x)
    obtain r w' where x: "x = (r, w')" by (cases x)
    have "0 \<le> value_b w'"
      using Inr x "2.prems"
      by (auto simp: aquire_def Let_def split: option.splits if_splits intro!: js_round_nonneg)
    then have "0 \<le> value_b (state_of (run ts w'))"
      by (rule "2.IH" [OF Inr x [symmetric]])
    then show ?thesis using Inr x by simp
  qed
next
  case (3 n ts w)
  show ?case
  proof (cases "release_count w n")
    case (Inl x)
    then show ?thesis
      using "3.prems" by (cases x) (auto simp: release_count_def split: option.splits if_splits)
  next
    case (Inr w')
    have step: "run (Call (Release n) # ts) w = run (Drain # ts) w'"
      using Inr by simp
    have "0 \<le> value_b w'"
      using Inr "3.prems"
      by (auto simp: release_count_def isSet_def js_number_of_bool_def
          split: option.splits if_splits intro!: js_round_nonneg)
    then have "0 \<le> value_b (state_of (run (Drain # ts) w'))"
      by (rule "3.IH" [OF Inr])
    then show ?thesis unfolding step .
  qed
next
  case (4 ts w)
  then show ?case by (auto simp: Let_def log_invocation_def pop_waiting_def)
next
  case (5 f a ts w)
  then show ?case by (auto simp: log_invocation_def unshift_waiting_def)
qed

text \<open>
  Invocations are paid for by registrations. What has been invoked, together with what
  is still in the array, never exceeds what was invoked and queued before plus what the
  pending calls can register: every step of the machine moves a callback from one side
  to the other, and a throw only ends the computation.
\<close>

lemma registered_body_tasks:
  "add_mset (fn_name f) (sum_list (map registered_task (body_tasks f))) = registered_fn f"
  by (cases f) (simp add: body_tasks_def comp_def)

lemma registered_waiting_pop:
  "q \<noteq> [] \<Longrightarrow>
   registered_waiting (butlast q) + registered_fn (callback (last q)) = registered_waiting q"
  by (induction q) (auto simp: registered_waiting_def)

lemma run_invocations:
  "invocations (state_of (run ts w)) + registered_waiting (waiting (state_of (run ts w)))
   \<subseteq># invocations w + registered_waiting (waiting w) + sum_list (map registered_task ts)"
proof (induction ts w rule: run.induct)
  case (1 w)
  show ?case by simp
next
  case (2 n ts w)
  show ?case
  proof (cases "aquire w n")
    case (Inl x)
    then show ?thesis by (cases x) (auto simp: aquire_def split: option.splits if_splits)
  next
    case (Inr x)
    obtain r w' where x: "x = (r, w')" by (cases x)
    have same: "invocations w' = invocations w" "waiting w' = waiting w"
      using Inr x by (auto simp: aquire_def Let_def invocations_def split: option.splits if_splits)
    have step: "run (Call (Aquire n) # ts) w = run ts w'"
      using Inr x by simp
    have "invocations (state_of (run ts w')) + registered_waiting (waiting (state_of (run ts w')))
          \<subseteq># invocations w' + registered_waiting (waiting w') + sum_list (map registered_task ts)"
      by (rule "2.IH" [OF Inr x [symmetric]])
    then show ?thesis unfolding step same by simp
  qed
next
  case (3 n ts w)
  show ?case
  proof (cases "release_count w n")
    case (Inl x)
    then show ?thesis by (cases x) (auto simp: release_count_def split: option.splits if_splits)
  next
    case (Inr w')
    have same: "invocations w' = invocations w" "waiting w' = waiting w"
      using Inr by (auto simp: release_count_def invocations_def split: option.splits if_splits)
    have step: "run (Call (Release n) # ts) w = run (Drain # ts) w'"
      using Inr by simp
    have "invocations (state_of (run (Drain # ts) w'))
            + registered_waiting (waiting (state_of (run (Drain # ts) w')))
          \<subseteq># invocations w' + registered_waiting (waiting w')
            + sum_list (map registered_task (Drain # ts))"
      by (rule "3.IH" [OF Inr])
    then show ?thesis unfolding step same by simp
  qed
next
  case (4 ts w)
  show ?case
  proof (cases "\<not> isSet w \<and> length (waiting w) > 0")
    case True
    let ?cb = "last (waiting w)"
    let ?w' = "log_invocation (callback ?cb) (args ?cb) (pop_waiting w)"
    let ?ts' = "body_tasks (callback ?cb) @ Drain # ts"
    have ne: "waiting w \<noteq> []" using True by simp
    have inv: "invocations ?w' = add_mset (fn_name (callback ?cb)) (invocations w)"
      by (simp add: invocations_def log_invocation_def pop_waiting_def)
    have q: "registered_waiting (waiting ?w') + registered_fn (callback ?cb)
             = registered_waiting (waiting w)"
      using registered_waiting_pop [OF ne] by (simp add: log_invocation_def pop_waiting_def)
    have ts: "sum_list (map registered_task ?ts') + {#fn_name (callback ?cb)#}
              = registered_fn (callback ?cb) + sum_list (map registered_task ts)"
      using registered_body_tasks [of "callback ?cb", symmetric] by simp
    have eq: "invocations ?w' + registered_waiting (waiting ?w') + sum_list (map registered_task ?ts')
          = invocations w + registered_waiting (waiting w) + sum_list (map registered_task (Drain # ts))"
      unfolding inv q [symmetric] using ts by (simp add: ac_simps)
    have step: "run (Drain # ts) w = run ?ts' ?w'"
      using True by (simp add: Let_def)
    have "invocations (state_of (run ?ts' ?w')) + registered_waiting (waiting (state_of (run ?ts' ?w')))
          \<subseteq># invocations ?w' + registered_waiting (waiting ?w') + sum_list (map registered_task ?ts')"
      by (rule "4.IH"(1) [OF True refl])
    then show ?thesis unfolding step eq .
  next
    case False
    have step: "run (Drain # ts) w = run ts w"
      using False by auto
    have "invocations (state_of (run ts w)) + registered_waiting (waiting (state_of (run ts w)))
          \<subseteq># invocations w + registered_waiting (waiting w) + sum_list (map registered_task ts)"
      by (rule "4.IH"(2) [OF False])
    then show ?thesis unfolding step by simp
  qed
next
  case (5 f a ts w)
  show ?case
  proof (cases "isSet w")
    case True
    let ?w' = "unshift_waiting f a w"
    have eq: "invocations ?w' + registered_waiting (waiting ?w') + sum_list (map registered_task ts)
          = invocations w + registered_waiting (waiting w)
            + sum_list (map registered_task (Call (Wait f a) # ts))"
      by (simp add: invocations_def unshift_waiting_def registered_waiting_def)
    have step: "run (Call (Wait f a) # ts) w = run ts ?w'"
      using True by simp
    have "invocations (state_of (run ts ?w')) + registered_waiting (waiting (state_of (run ts ?w')))
          \<subseteq># invocations ?w' + registered_waiting (waiting ?w') + sum_list (map registered_task ts)"
      by (rule "5.IH"(1) [OF True])
    then show ?thesis unfolding step eq .
  next
    case False
    let ?w' = "log_invocation f a w"
    let ?ts' = "body_tasks f @ ts"
    have ts: "sum_list (map registered_task ?ts') + {#fn_name f#}
              = registered_fn f + sum_list (map registered_task ts)"
      using registered_body_tasks [of f, symmetric] by simp
    have eq: "invocations ?w' + registered_waiting (waiting ?w') + sum_list (map registered_task ?ts')
          = invocations w + registered_waiting (waiting w)
            + sum_list (map registered_task (Call (Wait f a) # ts))"
      using ts by (simp add: invocations_def log_invocation_def ac_simps)
    have step: "run (Call (Wait f a) # ts) w = run ?ts' ?w'"
      using False by simp
    have "invocations (state_of (run ?ts' ?w')) + registered_waiting (waiting (state_of (run ?ts' ?w')))
          \<subseteq># invocations ?w' + registered_waiting (waiting ?w') + sum_list (map registered_task ?ts')"
      by (rule "5.IH"(2) [OF False])
    then show ?thesis unfolding step eq .
  qed
qed

section \<open>The claims\<close>

subsection \<open>C1: the order in which a release calls the waiting functions\<close>

text \<open>
  C1 reads: the drain is last-registered-first; with the barrier at count 1, after
  \<^verbatim>\<open>wait(W1)\<close>, \<^verbatim>\<open>wait(W2)\<close> and one \<^verbatim>\<open>release()\<close>, \<open>W2\<close> runs before \<open>W1\<close>.
  In the source \<^verbatim>\<open>wait\<close> inserts at the front of the array (\<^verbatim>\<open>unshift\<close>) and the loop
  takes from its end (\<^verbatim>\<open>pop\<close>), so the entry that has been in the array longest is
  taken first. On the scenario of the claim the log is \<open>W1\<close>, then \<open>W2\<close>.
\<close>

theorem drain_order_lifo_counterexample:
  "program [Wait (Fn 1 []) [], Wait (Fn 2 []) [], Release None] (start \<lparr>value_b = 1, waiting = []\<rparr>)
     = Returned \<lparr>value_b = 0, waiting = [], invoked = [(1, []), (2, [])]\<rparr>
   \<and> [(1, []), (2, [])] \<noteq> [(2 :: nat, [] :: jsval list), (1, [])]"
  by (simp add: program_def start_def isSet_def release_count_def unshift_waiting_def
      log_invocation_def pop_waiting_def body_tasks_def)

text \<open>
  C1, as amended: the drain is first-registered-first. On a set barrier with an empty
  array, register any continuations \<open>regs\<close> that make no calls on the barrier, in this
  order, and then release the barrier down to 0 (\<^verbatim>\<open>release()\<close> at count 1, or
  \<^verbatim>\<open>release(c)\<close> at count \<open>c\<close>): the release returns with the counter at 0, the array
  empty, and every continuation invoked once with its arguments, in the order of
  registration.
\<close>

theorem drain_order_fifo:
  assumes "value_b w = c" and "c > 0" and "waiting w = []"
    and "\<forall>(f, a)\<in>set regs. fn_body f = []"
    and "n = Some c \<or> (n = None \<and> c = 1)"
  shows "program (map (\<lambda>(f, a). Wait f a) regs @ [Release n]) w =
         Returned (w\<lparr>value_b := 0, waiting := [],
                     invoked := invoked w @ map (\<lambda>(f, a). (fn_name f, a)) regs\<rparr>)"
proof -
  let ?q = "rev (map (\<lambda>(f, a). \<lparr>args = a, callback = f\<rparr>) regs)"
  let ?w1 = "w\<lparr>waiting := ?q\<rparr>"
  let ?w2 = "?w1\<lparr>value_b := 0\<rparr>"
  have map_eq: "map Call (map (\<lambda>(f, a). Wait f a) regs) = map (\<lambda>(f, a). Call (Wait f a)) regs"
    by (induction regs) auto
  have "program (map (\<lambda>(f, a). Wait f a) regs @ [Release n]) w =
        run (map (\<lambda>(f, a). Call (Wait f a)) regs @ [Call (Release n)]) w"
    unfolding program_def map_append map_eq by simp
  also have "\<dots> = run [Call (Release n)] ?w1"
    using run_waits [of w regs "[Call (Release n)]"] assms(1-3)
    by (simp add: isSet_def del: run.simps)
  also have "\<dots> = run [Drain] ?w2"
    using release_to_zero [of ?w1 c n] assms by simp
  also have "\<dots> = run [Drain] (?w2\<lparr>waiting := [], invoked := invoked ?w2 @ map entry (rev ?q)\<rparr>)"
    using assms(4) by (intro drain_passive) (auto simp: isSet_def)
  also have "\<dots> = Returned (?w2\<lparr>waiting := [], invoked := invoked ?w2 @ map entry (rev ?q)\<rparr>)"
    by simp
  also have "map entry (rev ?q) = map (\<lambda>(f, a). (fn_name f, a)) regs"
    by (induction regs) (auto simp: entry_def)
  finally show ?thesis by simp
qed

theorem drain_order_fifo_witness:
  "program [Wait (Fn 1 []) [], Wait (Fn 2 []) [Str ''x''], Release None]
       \<lparr>value_b = 1, waiting = [], invoked = []\<rparr>
     = Returned \<lparr>value_b = 0, waiting = [], invoked = [(1, []), (2, [Str ''x''])]\<rparr>"
  using drain_order_fifo [of "\<lparr>value_b = 1, waiting = [], invoked = []\<rparr>" 1
      "[(Fn 1 [], []), (Fn 2 [], [Str ''x''])]" None]
  by simp

subsection \<open>C2: the range of an explicit release amount\<close>

text \<open>
  C2 reads: on a barrier with value \<open>c > 0\<close>, \<^verbatim>\<open>release(n)\<close> with an explicit \<open>n\<close>
  succeeds exactly when \<open>0 < n \<le> c\<close> and leaves the counter at \<open>c - n\<close>; every other
  \<open>n\<close>, also \<open>0\<close> and the negative ones, raises an invalid-argument error. The comment
  above \<^verbatim>\<open>release\<close> in the source says the same (\<^verbatim>\<open>Error if n <= 0 or n > the number of
  barriers taken\<close>). The test \<^verbatim>\<open>this.value >= n > 0\<close> does not check \<open>n > 0\<close>, though
  (see \<open>release_count_explicit\<close>): at count 1, \<^verbatim>\<open>release(0)\<close> returns and leaves the
  counter at 1, and \<^verbatim>\<open>release(-1)\<close> returns and leaves it at 2.
\<close>

theorem release_accepts_nonpositive_amount:
  "release \<lparr>value_b = 1, waiting = [], invoked = []\<rparr> (Some 0)
     = Returned \<lparr>value_b = 1, waiting = [], invoked = []\<rparr>
   \<and> release \<lparr>value_b = 1, waiting = [], invoked = []\<rparr> (Some (- 1))
     = Returned \<lparr>value_b = 2, waiting = [], invoked = []\<rparr>"
  by (simp add: release_def release_count_def isSet_def js_number_of_bool_def)

subsection \<open>C3: a continuation that takes the barrier stops the drain\<close>

text \<open>
  C3: if, during the drain that a release triggers, an invoked continuation calls
  \<^verbatim>\<open>aquire\<close> and so leaves the barrier set (value \<open>> 0\<close>), that release invokes no
  further queued continuation, and the remaining continuations stay queued for a future
  release; with count 1 and waiters \<open>W1\<close>, \<open>W2\<close>, where the body of \<open>W1\<close> calls
  \<^verbatim>\<open>aquire()\<close>, one \<^verbatim>\<open>release()\<close> invokes \<open>W1\<close> only and leaves \<open>W2\<close> queued.

  The release is \<^verbatim>\<open>release(n)\<close> in state \<open>w0\<close>, whose check and decrement give \<open>w1\<close>.
  Its loop has come, after any number of iterations, to stand at its head in a state
  \<open>w\<close> where the barrier is clear and the array is \<open>q\<close> followed by the entry \<open>cb\<close>. The
  callback of \<open>cb\<close>, whatever its body is, returns in a state \<open>w'\<close> with the barrier set.
  Then the release returns, and it returns \<open>w'\<close>: after this continuation it has invoked
  nothing and has not touched the array. The same holds of the loop of a \<^verbatim>\<open>release\<close>
  called by a callback, whose caller goes on with its pending tasks \<open>ts\<close>. And when the
  continuation makes no \<^verbatim>\<open>release\<close> call of its own, the entries \<open>q\<close> that were behind
  it are still there, in their places at the end of the array. (A continuation that
  calls \<^verbatim>\<open>aquire\<close> and then \<^verbatim>\<open>release\<close> again has the entries behind it invoked by its
  own \<^verbatim>\<open>release\<close>; if it returns with the barrier clear it is not a case of this claim,
  and if it returns with the barrier set the first two conclusions hold of it.)
\<close>

theorem reentrant_aquire_halts_drain:
  assumes "release_count w0 n = Inr w1" and "drains_to w1 w"
    and "\<not> isSet w" and "waiting w = q @ [cb]"
    and "invoke (callback cb) (args cb) (w\<lparr>waiting := q\<rparr>) = Returned w'"
    and "isSet w'"
  shows "release w0 n = Returned w'
         \<and> run (Drain # ts) w = run ts w'
         \<and> (release_free_fn (callback cb) \<longrightarrow> (\<exists>new. waiting w' = new @ q))"
proof (intro conjI impI)
  have pop: "pop_waiting w = w\<lparr>waiting := q\<rparr>"
    using assms(4) by (simp add: pop_waiting_def)
  have body: "run (body_tasks (callback cb)) (log_invocation (callback cb) (args cb) (w\<lparr>waiting := q\<rparr>))
              = Returned w'"
    using assms(5) by (simp add: invoke_def)
  have loop: "run (Drain # us) w = run us w'" for us
  proof -
    have "run (Drain # us) w
          = run (body_tasks (callback cb) @ Drain # us)
              (log_invocation (callback cb) (args cb) (w\<lparr>waiting := q\<rparr>))"
      using assms(3,4) pop by (simp add: Let_def)
    also have "\<dots> = run (Drain # us) w'"
      unfolding run_append body by (simp add: and_then_def)
    also have "\<dots> = run us w'"
      using assms(6) by simp
    finally show ?thesis .
  qed
  show "run (Drain # ts) w = run ts w'"
    by (rule loop)
  have "release w0 n = drain w1"
    using assms(1) by (simp add: release_unfold)
  also have "\<dots> = drain w"
    using assms(2) by (rule drains_to_drain)
  also have "\<dots> = Returned w'"
    using loop [of "[]"] by (simp add: drain_def)
  finally show "release w0 n = Returned w'" .
next
  assume "release_free_fn (callback cb)"
  then have "list_all release_free_task (body_tasks (callback cb))"
    by (rule release_free_body_tasks)
  then obtain new where
    "waiting (state_of (run (body_tasks (callback cb))
        (log_invocation (callback cb) (args cb) (w\<lparr>waiting := q\<rparr>))))
     = new @ waiting (log_invocation (callback cb) (args cb) (w\<lparr>waiting := q\<rparr>))"
    using run_release_free by blast
  then have "waiting w' = new @ q"
    using assms(5) by (simp add: invoke_def log_invocation_def)
  then show "\<exists>new. waiting w' = new @ q" by blast
qed

text \<open>
  Two instances. The scenario of the claim: count 1, array \<open>W2, W1\<close> (\<open>W1\<close> registered
  first), \<open>W1\<close> calling \<^verbatim>\<open>aquire()\<close>. And a later iteration of the loop, with a
  continuation that does more than one thing: \<open>W3\<close>, registered first, makes no calls;
  \<open>W1\<close> then calls \<^verbatim>\<open>aquire()\<close> twice and registers \<open>W4\<close>; \<open>W2\<close> is not invoked and stays
  queued behind \<open>W4\<close>.
\<close>

theorem reentrant_aquire_halts_drain_witness:
  "release \<lparr>value_b = 1,
            waiting = [\<lparr>args = [], callback = Fn 2 []\<rparr>, \<lparr>args = [], callback = Fn 1 [Aquire None]\<rparr>],
            invoked = []\<rparr> None
     = Returned \<lparr>value_b = 1, waiting = [\<lparr>args = [], callback = Fn 2 []\<rparr>], invoked = [(1, [])]\<rparr>
   \<and> release \<lparr>value_b = 1,
            waiting = [\<lparr>args = [], callback = Fn 2 []\<rparr>,
                       \<lparr>args = [], callback = Fn 1 [Aquire None, Aquire None, Wait (Fn 4 []) []]\<rparr>,
                       \<lparr>args = [], callback = Fn 3 []\<rparr>],
            invoked = []\<rparr> None
     = Returned \<lparr>value_b = 2,
                 waiting = [\<lparr>args = [], callback = Fn 4 []\<rparr>, \<lparr>args = [], callback = Fn 2 []\<rparr>],
                 invoked = [(3, []), (1, [])]\<rparr>"
proof -
  let ?W2 = "\<lparr>args = [], callback = Fn 2 []\<rparr>"
  let ?W1 = "\<lparr>args = [], callback = Fn 1 [Aquire None]\<rparr>"
  let ?W1' = "\<lparr>args = [], callback = Fn 1 [Aquire None, Aquire None, Wait (Fn 4 []) []]\<rparr>"
  let ?W3 = "\<lparr>args = [], callback = Fn 3 []\<rparr>"
  let ?W4 = "\<lparr>args = [], callback = Fn 4 []\<rparr>"
  let ?a0 = "\<lparr>value_b = 1, waiting = [?W2, ?W1], invoked = []\<rparr>"
  let ?a1 = "\<lparr>value_b = 0, waiting = [?W2, ?W1], invoked = []\<rparr>"
  let ?a' = "\<lparr>value_b = 1, waiting = [?W2], invoked = [(1, [])]\<rparr>"
  have a1: "release_count ?a0 None = Inr ?a1"
    by (simp add: release_count_def isSet_def)
  have a2: "drains_to ?a1 ?a1"
    by (rule drains_to.here)
  have a3: "\<not> isSet ?a1"
    by (simp add: isSet_def)
  have a4: "waiting ?a1 = [?W2] @ [?W1]"
    by simp
  have a5: "invoke (callback ?W1) (args ?W1) (?a1\<lparr>waiting := [?W2]\<rparr>) = Returned ?a'"
    by (simp add: invoke_def body_tasks_def log_invocation_def aquire_def)
  have a6: "isSet ?a'"
    by (simp add: isSet_def)
  let ?b0 = "\<lparr>value_b = 1, waiting = [?W2, ?W1', ?W3], invoked = []\<rparr>"
  let ?b1 = "\<lparr>value_b = 0, waiting = [?W2, ?W1', ?W3], invoked = []\<rparr>"
  let ?b2 = "\<lparr>value_b = 0, waiting = [?W2, ?W1'], invoked = [(3, [])]\<rparr>"
  let ?b' = "\<lparr>value_b = 2, waiting = [?W4, ?W2], invoked = [(3, []), (1, [])]\<rparr>"
  have b1: "release_count ?b0 None = Inr ?b1"
    by (simp add: release_count_def isSet_def)
  have "invoke (callback (last (waiting ?b1))) (args (last (waiting ?b1))) (pop_waiting ?b1)
        = Returned ?b2"
    by (simp add: invoke_def body_tasks_def log_invocation_def pop_waiting_def)
  then have b2: "drains_to ?b1 ?b2"
    by (intro drains_to.iteration [OF _ _ _ drains_to.here]) (simp_all add: isSet_def)
  have b3: "\<not> isSet ?b2"
    by (simp add: isSet_def)
  have b4: "waiting ?b2 = [?W2] @ [?W1']"
    by simp
  have b5: "invoke (callback ?W1') (args ?W1') (?b2\<lparr>waiting := [?W2]\<rparr>) = Returned ?b'"
    by (simp add: invoke_def body_tasks_def log_invocation_def aquire_def isSet_def
        unshift_waiting_def)
  have b6: "isSet ?b'"
    by (simp add: isSet_def)
  show ?thesis
    using reentrant_aquire_halts_drain [OF a1 a2 a3 a4 a5 a6]
      reentrant_aquire_halts_drain [OF b1 b2 b3 b4 b5 b6]
    by simp
qed

text \<open>The same scenario from the constructor on: the two registrations, then the release.\<close>

lemma reentrant_aquire_scenario:
  "program [Wait (Fn 1 [Aquire None]) [], Wait (Fn 2 []) [], Release None]
       (start \<lparr>value_b = 1, waiting = []\<rparr>)
   = Returned \<lparr>value_b = 1, waiting = [\<lparr>args = [], callback = Fn 2 []\<rparr>], invoked = [(1, [])]\<rparr>"
  by (simp add: program_def start_def isSet_def release_count_def unshift_waiting_def
      log_invocation_def pop_waiting_def body_tasks_def aquire_def)

subsection \<open>C4: wait invokes at once or enqueues\<close>

text \<open>
  C4: \<^verbatim>\<open>wait(fn, ...args)\<close> on a barrier with value 0 invokes \<^verbatim>\<open>fn\<close> with \<^verbatim>\<open>args\<close>
  synchronously, before it returns, and does not touch the array; on a barrier with
  value \<open>> 0\<close> it does not invoke \<^verbatim>\<open>fn\<close> and adds \<^verbatim>\<open>{fn, args}\<close> to the array.
  With value 0 the call is exactly the body of \<^verbatim>\<open>fn\<close> run from the state in which only
  the invocation has been logged, so the log of the outcome holds the invocation right
  after what was logged before; when the body makes no calls the array is the one
  \<^verbatim>\<open>wait\<close> found. With a positive value the new entry stands at index 0 and the log is
  unchanged.
\<close>

theorem wait_immediate_or_enqueue:
  "(value_b w = 0 \<longrightarrow>
      wait w f a = program (fn_body f) (w\<lparr>invoked := invoked w @ [(fn_name f, a)]\<rparr>)
      \<and> (\<exists>later. invoked (state_of (wait w f a)) = invoked w @ (fn_name f, a) # later)
      \<and> (fn_body f = [] \<longrightarrow> wait w f a = Returned (w\<lparr>invoked := invoked w @ [(fn_name f, a)]\<rparr>)))
   \<and> (value_b w > 0 \<longrightarrow>
      wait w f a = Returned (w\<lparr>waiting := \<lparr>args = a, callback = f\<rparr> # waiting w\<rparr>))"
proof (intro conjI impI)
  assume z: "value_b w = 0"
  then show eq: "wait w f a = program (fn_body f) (w\<lparr>invoked := invoked w @ [(fn_name f, a)]\<rparr>)"
    by (simp add: wait_unfold invoke_unfold isSet_def log_invocation_def)
  obtain later where
    "invoked (state_of (run (map Call (fn_body f)) (w\<lparr>invoked := invoked w @ [(fn_name f, a)]\<rparr>)))
     = invoked (w\<lparr>invoked := invoked w @ [(fn_name f, a)]\<rparr>) @ later"
    using run_invoked_grows by blast
  then show "\<exists>later. invoked (state_of (wait w f a)) = invoked w @ (fn_name f, a) # later"
    unfolding eq program_def by simp
  assume "fn_body f = []"
  then show "wait w f a = Returned (w\<lparr>invoked := invoked w @ [(fn_name f, a)]\<rparr>)"
    unfolding eq by (simp add: program_def)
next
  assume "value_b w > 0"
  then show "wait w f a = Returned (w\<lparr>waiting := \<lparr>args = a, callback = f\<rparr> # waiting w\<rparr>)"
    by (simp add: wait_unfold isSet_def unshift_waiting_def)
qed

theorem wait_immediate_or_enqueue_witness:
  "wait \<lparr>value_b = 0, waiting = [], invoked = []\<rparr> (Fn 7 []) [Str ''x'']
     = Returned \<lparr>value_b = 0, waiting = [], invoked = [(7, [Str ''x''])]\<rparr>
   \<and> wait \<lparr>value_b = 2, waiting = [], invoked = []\<rparr> (Fn 7 []) [Str ''x'']
     = Returned \<lparr>value_b = 2, waiting = [\<lparr>args = [Str ''x''], callback = Fn 7 []\<rparr>], invoked = []\<rparr>"
  using wait_immediate_or_enqueue [of "\<lparr>value_b = 0, waiting = [], invoked = []\<rparr>" "Fn 7 []" "[Str ''x'']"]
    wait_immediate_or_enqueue [of "\<lparr>value_b = 2, waiting = [], invoked = []\<rparr>" "Fn 7 []" "[Str ''x'']"]
  by (simp add: program_def)

subsection \<open>C5: release on a clear barrier, and release without an argument\<close>

text \<open>
  C5 reads: \<^verbatim>\<open>release\<close>, with or without an argument, on a barrier with value 0 raises
  the "not set" error; \<^verbatim>\<open>release()\<close> on a barrier with value \<open>c > 0\<close> decrements the
  counter to \<open>c - 1\<close>. The counter is a double: from \<open>2^53\<close> on, \<open>c - 1\<close> need not be a
  double, and \<^verbatim>\<open>this.value--\<close> stores the double nearest to it. A barrier constructed
  with \<open>2^53 + 2\<close> and released once has the value \<open>2^53\<close>, not \<open>2^53 + 1\<close>.
\<close>

theorem release_rounds_counterexample:
  "release \<lparr>value_b = 9007199254740994, waiting = [], invoked = []\<rparr> None
     = Returned \<lparr>value_b = 9007199254740992, waiting = [], invoked = []\<rparr>
   \<and> (9007199254740992 :: int) \<noteq> 9007199254740994 - 1"
  by (simp add: release_def release_count_def isSet_def js_round_first_odd)

text \<open>
  C5, as amended: \<^verbatim>\<open>release\<close>, with or without an argument, on a barrier with value 0
  raises the "not set" error (and leaves the state as it was); \<^verbatim>\<open>release()\<close> on a
  barrier with value \<open>c\<close>, \<open>0 < c \<le> 2^53\<close>, decrements the counter to \<open>c - 1\<close>. (For
  every \<open>c > 0\<close> the new value is \<open>c - 1\<close> rounded to a double: the second conjunct.)
  The call is the drain loop started from the state with the decremented counter, and
  where the loop has nothing to do (the counter is still positive, or the array is
  empty) that state is returned.
\<close>

theorem release_not_set_or_decrement:
  "(value_b w = 0 \<longrightarrow> release w n = Thrown (Error ''Barrier not set.'') w)
   \<and> (value_b w > 0 \<longrightarrow> release w None = drain (w\<lparr>value_b := js_round (value_b w - 1)\<rparr>))
   \<and> (0 < value_b w \<and> value_b w \<le> 2 ^ 53 \<longrightarrow>
        release w None = drain (w\<lparr>value_b := value_b w - 1\<rparr>))
   \<and> ((value_b w > 1 \<or> value_b w = 1 \<and> waiting w = []) \<and> value_b w \<le> 2 ^ 53 \<longrightarrow>
        release w None = Returned (w\<lparr>value_b := value_b w - 1\<rparr>))"
proof (intro conjI impI)
  assume "value_b w = 0"
  then show "release w n = Thrown (Error ''Barrier not set.'') w"
    by (simp add: release_unfold release_count_def isSet_def)
next
  assume "value_b w > 0"
  then show "release w None = drain (w\<lparr>value_b := js_round (value_b w - 1)\<rparr>)"
    by (simp add: release_unfold release_count_def isSet_def)
next
  assume "0 < value_b w \<and> value_b w \<le> 2 ^ 53"
  then show "release w None = drain (w\<lparr>value_b := value_b w - 1\<rparr>)"
    by (simp add: release_unfold release_count_def isSet_def)
next
  assume c: "(value_b w > 1 \<or> value_b w = 1 \<and> waiting w = []) \<and> value_b w \<le> 2 ^ 53"
  then have "release w None = drain (w\<lparr>value_b := value_b w - 1\<rparr>)"
    by (auto simp: release_unfold release_count_def isSet_def)
  also have "\<dots> = Returned (w\<lparr>value_b := value_b w - 1\<rparr>)"
    using c by (auto simp: drain_def isSet_def)
  finally show "release w None = Returned (w\<lparr>value_b := value_b w - 1\<rparr>)" .
qed

theorem release_not_set_or_decrement_witness:
  "release \<lparr>value_b = 0, waiting = [], invoked = []\<rparr> None
     = Thrown (Error ''Barrier not set.'') \<lparr>value_b = 0, waiting = [], invoked = []\<rparr>
   \<and> release \<lparr>value_b = 0, waiting = [], invoked = []\<rparr> (Some 1)
     = Thrown (Error ''Barrier not set.'') \<lparr>value_b = 0, waiting = [], invoked = []\<rparr>
   \<and> release \<lparr>value_b = 3, waiting = [], invoked = []\<rparr> None
     = Returned \<lparr>value_b = 2, waiting = [], invoked = []\<rparr>"
  using release_not_set_or_decrement [of "\<lparr>value_b = 0, waiting = [], invoked = []\<rparr>" None]
    release_not_set_or_decrement [of "\<lparr>value_b = 0, waiting = [], invoked = []\<rparr>" "Some 1"]
    release_not_set_or_decrement [of "\<lparr>value_b = 3, waiting = [], invoked = []\<rparr>" None]
  by (simp add: drain_def isSet_def)

subsection \<open>C6: aquire\<close>




subsection \<open>C7: the counter is never negative\<close>

text \<open>
  C7: on every barrier reached from the constructor by any sequence of \<^verbatim>\<open>aquire\<close>,
  \<^verbatim>\<open>release\<close> and \<^verbatim>\<open>wait\<close> calls with integer arguments, the value is \<open>\<ge> 0\<close> after
  every operation; and a single operation that would make the value negative raises an
  error before it changes the state.

  The first conjunct is the invariant: the state in which any program ends, returned or
  thrown, has a non-negative value. The programs range over all sequences of calls, with
  callbacks of any body, so every state between two operations, also inside a callback,
  is the end state of a program (the one cut off there). The other conjuncts are the
  operations that would go below zero: \<^verbatim>\<open>release(k)\<close> with \<open>k\<close> above the value,
  \<^verbatim>\<open>release()\<close> at value 0, \<^verbatim>\<open>aquire(k)\<close> with \<open>k\<close> below minus the value, and the
  constructor with a negative count. Each throws, in the state it was called in.
\<close>

theorem value_never_negative:
  "(Barrier n = Inr b \<longrightarrow> 0 \<le> value_b b \<and> 0 \<le> value_b (state_of (program cs (start b))))
   \<and> (0 \<le> value_b w \<and> value_b w - k < 0 \<longrightarrow>
        release w (Some k)
          = Thrown (if value_b w = 0 then Error ''Barrier not set.'' else RangeError ''Invalid Argument'') w)
   \<and> (0 \<le> value_b w \<and> value_b w - 1 < 0 \<longrightarrow>
        release w None = Thrown (Error ''Barrier not set.'') w)
   \<and> (0 \<le> value_b w \<and> value_b w + k < 0 \<longrightarrow>
        aquire w (Some k) = Inl (RangeError ''Invalid Argument'', w))
   \<and> (k < 0 \<longrightarrow> Barrier (Some k) = Inl (RangeError ''Invalid Argument''))"
proof (intro conjI impI)
  assume b: "Barrier n = Inr b"
  then show "0 \<le> value_b b"
    by (simp add: Barrier_waiting)
  then have "0 \<le> value_b (start b)"
    by (simp add: start_def)
  then show "0 \<le> value_b (state_of (program cs (start b)))"
    unfolding program_def by (rule run_value_nonneg)
next
  assume "0 \<le> value_b w \<and> value_b w - k < 0"
  then show "release w (Some k)
      = Thrown (if value_b w = 0 then Error ''Barrier not set.'' else RangeError ''Invalid Argument'') w"
    by (auto simp: release_unfold release_count_def isSet_def js_number_of_bool_def)
next
  assume "0 \<le> value_b w \<and> value_b w - 1 < 0"
  then show "release w None = Thrown (Error ''Barrier not set.'') w"
    by (auto simp: release_unfold release_count_def isSet_def)
next
  assume "0 \<le> value_b w \<and> value_b w + k < 0"
  then show "aquire w (Some k) = Inl (RangeError ''Invalid Argument'', w)"
    by (auto simp: aquire_def)
next
  assume "k < 0"
  then show "Barrier (Some k) = Inl (RangeError ''Invalid Argument'')"
    by (simp add: Barrier_def)
qed

theorem value_never_negative_witness:
  "Barrier (Some 1) = Inr \<lparr>value_b = 1, waiting = []\<rparr>
   \<and> 0 \<le> value_b (state_of (program [Release (Some (- 4)), Wait (Fn 1 [Release None]) [], Release (Some 5), Aquire (Some (- 1))]
                      (start \<lparr>value_b = 1, waiting = []\<rparr>)))
   \<and> release \<lparr>value_b = 2, waiting = [], invoked = []\<rparr> (Some 3)
       = Thrown (RangeError ''Invalid Argument'') \<lparr>value_b = 2, waiting = [], invoked = []\<rparr>
   \<and> release \<lparr>value_b = 0, waiting = [], invoked = []\<rparr> None
       = Thrown (Error ''Barrier not set.'') \<lparr>value_b = 0, waiting = [], invoked = []\<rparr>
   \<and> aquire \<lparr>value_b = 2, waiting = [], invoked = []\<rparr> (Some (- 3))
       = Inl (RangeError ''Invalid Argument'', \<lparr>value_b = 2, waiting = [], invoked = []\<rparr>)
   \<and> Barrier (Some (- 3)) = Inl (RangeError ''Invalid Argument'')"
  using value_never_negative [of "Some 1" "\<lparr>value_b = 1, waiting = []\<rparr>"
      "[Release (Some (- 4)), Wait (Fn 1 [Release None]) [], Release (Some 5), Aquire (Some (- 1))]"
      "\<lparr>value_b = 2, waiting = [], invoked = []\<rparr>" 3]
    value_never_negative [of "Some 1" "\<lparr>value_b = 1, waiting = []\<rparr>" "[]"
      "\<lparr>value_b = 0, waiting = [], invoked = []\<rparr>" 3]
    value_never_negative [of "Some 1" "\<lparr>value_b = 1, waiting = []\<rparr>" "[]"
      "\<lparr>value_b = 2, waiting = [], invoked = []\<rparr>" "- 3"]
  by (simp add: Barrier_def)

subsection \<open>C8: the constructor\<close>

text \<open>
  C8: for every \<open>n \<ge> 0\<close> the constructor yields value \<open>n\<close>, an empty array, and
  \<^verbatim>\<open>isSet()\<close> is \<open>n > 0\<close>; with no argument it yields value 0 (clear); with \<open>n < 0\<close> it
  raises the invalid-argument error.
\<close>

theorem Barrier_construct:
  "(n \<ge> 0 \<longrightarrow> Barrier (Some n) = Inr \<lparr>value_b = n, waiting = []\<rparr>
               \<and> isSet \<lparr>value_b = n, waiting = []\<rparr> = (n > 0))
   \<and> Barrier None = Inr \<lparr>value_b = 0, waiting = []\<rparr>
   \<and> \<not> isSet \<lparr>value_b = 0, waiting = []\<rparr>
   \<and> (n < 0 \<longrightarrow> Barrier (Some n) = Inl (RangeError ''Invalid Argument''))"
  by (simp add: Barrier_def isSet_def)

theorem Barrier_construct_witness:
  "Barrier (Some 3) = Inr \<lparr>value_b = 3, waiting = []\<rparr> \<and> isSet \<lparr>value_b = 3, waiting = []\<rparr>
   \<and> Barrier (Some 0) = Inr \<lparr>value_b = 0, waiting = []\<rparr> \<and> \<not> isSet \<lparr>value_b = 0, waiting = []\<rparr>
   \<and> Barrier (Some (- 2)) = Inl (RangeError ''Invalid Argument'')"
  using Barrier_construct [of 3] Barrier_construct [of 0] Barrier_construct [of "- 2"]
  by simp

subsection \<open>C9: what an error leaves behind\<close>

text \<open>
  C9 reads: whenever \<^verbatim>\<open>aquire(n)\<close> or \<^verbatim>\<open>release(n)\<close> raises an error, the value
  and the array are exactly as before the call and the call has invoked no queued
  continuation. An error raised inside a continuation is not caught by the loop of
  \<^verbatim>\<open>release\<close>, so it leaves the \<^verbatim>\<open>release\<close> that invoked the continuation as well, after
  that \<^verbatim>\<open>release\<close> has decremented the counter and taken the continuation off the array.
  At count 1 with one queued continuation whose body calls \<^verbatim>\<open>release()\<close>, the call
  \<^verbatim>\<open>release()\<close> raises "Barrier not set." with the counter at 0, the array empty and the
  continuation invoked.
\<close>

theorem release_error_from_continuation_counterexample:
  "release \<lparr>value_b = 1, waiting = [\<lparr>args = [], callback = Fn 1 [Release None]\<rparr>], invoked = []\<rparr> None
     = Thrown (Error ''Barrier not set.'') \<lparr>value_b = 0, waiting = [], invoked = [(1, [])]\<rparr>
   \<and> \<lparr>value_b = 0, waiting = [], invoked = [(1 :: nat, [] :: jsval list)]\<rparr>
     \<noteq> \<lparr>value_b = 1, waiting = [\<lparr>args = [], callback = Fn 1 [Release None]\<rparr>], invoked = []\<rparr>"
  by (simp add: release_def release_count_def isSet_def log_invocation_def pop_waiting_def body_tasks_def)

text \<open>
  C9, as amended: whenever \<^verbatim>\<open>aquire(n)\<close> or \<^verbatim>\<open>release(n)\<close> raises an error by its own
  check of the argument or of the state, the value and the array are exactly as before
  the call, and the call has invoked no continuation (the log is unchanged as well).
  The checks are spelled out in the last three conjuncts: \<^verbatim>\<open>release\<close> on a barrier that
  is not set, \<^verbatim>\<open>release(k)\<close> with \<open>k\<close> above the value, \<^verbatim>\<open>aquire(k)\<close> with \<open>k < 0\<close>.
\<close>

theorem own_check_error_is_atomic:
  "(release_count w n = Inl (e, w') \<longrightarrow> w' = w \<and> release w n = Thrown e w)
   \<and> (aquire w n = Inl (e, w') \<longrightarrow> w' = w \<and> program [Aquire n] w = Thrown e w)
   \<and> (\<not> isSet w \<longrightarrow> release w n = Thrown (Error ''Barrier not set.'') w)
   \<and> (isSet w \<and> value_b w < k \<longrightarrow> release w (Some k) = Thrown (RangeError ''Invalid Argument'') w)
   \<and> (k < 0 \<longrightarrow> program [Aquire (Some k)] w = Thrown (RangeError ''Invalid Argument'') w)"
  by (auto simp: release_unfold release_count_def aquire_def program_def js_number_of_bool_def
      split: option.splits if_splits)

theorem own_check_error_is_atomic_witness:
  "release \<lparr>value_b = 0, waiting = [\<lparr>args = [], callback = Fn 1 []\<rparr>], invoked = []\<rparr> (Some 1)
     = Thrown (Error ''Barrier not set.'')
         \<lparr>value_b = 0, waiting = [\<lparr>args = [], callback = Fn 1 []\<rparr>], invoked = []\<rparr>
   \<and> release \<lparr>value_b = 2, waiting = [\<lparr>args = [], callback = Fn 1 []\<rparr>], invoked = []\<rparr> (Some 3)
     = Thrown (RangeError ''Invalid Argument'')
         \<lparr>value_b = 2, waiting = [\<lparr>args = [], callback = Fn 1 []\<rparr>], invoked = []\<rparr>
   \<and> program [Aquire (Some (- 1))] \<lparr>value_b = 2, waiting = [\<lparr>args = [], callback = Fn 1 []\<rparr>], invoked = []\<rparr>
     = Thrown (RangeError ''Invalid Argument'')
         \<lparr>value_b = 2, waiting = [\<lparr>args = [], callback = Fn 1 []\<rparr>], invoked = []\<rparr>"
  using own_check_error_is_atomic
      [of "\<lparr>value_b = 0, waiting = [\<lparr>args = [], callback = Fn 1 []\<rparr>], invoked = []\<rparr>" "Some 1" _ _ "- 1"]
    own_check_error_is_atomic
      [of "\<lparr>value_b = 2, waiting = [\<lparr>args = [], callback = Fn 1 []\<rparr>], invoked = []\<rparr>" "Some 3" _ _ 3]
    own_check_error_is_atomic
      [of "\<lparr>value_b = 2, waiting = [\<lparr>args = [], callback = Fn 1 []\<rparr>], invoked = []\<rparr>" "Some 3" _ _ "- 1"]
  by (simp add: isSet_def)

subsection \<open>C10: a continuation is invoked at most once\<close>

text \<open>
  C10: every continuation enqueued by \<^verbatim>\<open>wait\<close> is removed from the array before it is
  invoked, so it is never invoked more than once; in particular a \<^verbatim>\<open>release\<close> made from
  inside a draining continuation cannot invoke that continuation again.

  First conjunct: when the loop takes the entry \<open>cb\<close>, the callback starts in a state
  whose array is the rest \<open>q\<close>; whatever it calls, \<open>cb\<close> is no longer there to be taken.
  Second conjunct: in the state where any program on a new barrier ends, a callback has
  been invoked at most as often as the program registers it with \<^verbatim>\<open>wait\<close>; one registered
  once is invoked at most once. The instance below is a continuation that takes the barrier and
  releases it again from inside the drain.
\<close>

theorem invoked_at_most_once:
  "(\<not> isSet w \<and> waiting w = q @ [cb] \<longrightarrow>
      drain w = and_then (invoke (callback cb) (args cb) (w\<lparr>waiting := q\<rparr>)) drain)
   \<and> (Barrier n = Inr b \<longrightarrow>
      count (invocations (state_of (program cs (start b)))) i
        \<le> count (sum_list (map registered cs)) i)"
proof (intro conjI impI)
  assume "\<not> isSet w \<and> waiting w = q @ [cb]"
  then show "drain w = and_then (invoke (callback cb) (args cb) (w\<lparr>waiting := q\<rparr>)) drain"
    by (subst drain_unfold) (simp add: Let_def pop_waiting_def)
next
  assume b: "Barrier n = Inr b"
  have "invocations (state_of (program cs (start b)))
        \<subseteq># invocations (state_of (program cs (start b)))
            + registered_waiting (waiting (state_of (program cs (start b))))"
    by simp
  also have "\<dots> \<subseteq># invocations (start b) + registered_waiting (waiting (start b))
                    + sum_list (map registered_task (map Call cs))"
    unfolding program_def by (rule run_invocations)
  also have "\<dots> = sum_list (map registered cs)"
    using Barrier_waiting [OF b]
    by (simp add: start_def invocations_def registered_waiting_def comp_def)
  finally show "count (invocations (state_of (program cs (start b)))) i
                \<le> count (sum_list (map registered cs)) i"
    by (rule mset_subset_eq_count)
qed

theorem invoked_at_most_once_witness:
  "count (invocations (state_of (program [Wait (Fn 1 [Aquire None, Release None]) [], Release None]
                                   (start \<lparr>value_b = 1, waiting = []\<rparr>)))) 1
   \<le> 1
   \<and> drain \<lparr>value_b = 0, waiting = [\<lparr>args = [], callback = Fn 1 [Aquire None, Release None]\<rparr>], invoked = []\<rparr>
     = and_then (invoke (Fn 1 [Aquire None, Release None]) [] \<lparr>value_b = 0, waiting = [], invoked = []\<rparr>) drain"
  using invoked_at_most_once [of
      "\<lparr>value_b = 0, waiting = [\<lparr>args = [], callback = Fn 1 [Aquire None, Release None]\<rparr>], invoked = []\<rparr>"
      "[]" "\<lparr>args = [], callback = Fn 1 [Aquire None, Release None]\<rparr>"
      "Some 1" "\<lparr>value_b = 1, waiting = []\<rparr>"
      "[Wait (Fn 1 [Aquire None, Release None]) [], Release None]" 1]
  by (simp add: Barrier_def isSet_def)

text \<open>The scenario evaluated: the continuation has run once, and the array is empty.\<close>

lemma reentrant_release_scenario:
  "program [Wait (Fn 1 [Aquire None, Release None]) [], Release None] (start \<lparr>value_b = 1, waiting = []\<rparr>)
   = Returned \<lparr>value_b = 0, waiting = [], invoked = [(1, [])]\<rparr>"
  by (simp add: program_def start_def isSet_def release_count_def unshift_waiting_def
      log_invocation_def pop_waiting_def body_tasks_def aquire_def)

end
